theory Spec2Isabelle
  imports Main "HOL-Library.Sublist"
begin

section \<open>The job buffer of PgQueuer (buffers.py)\<close>

text \<open>
  \<^verbatim>\<open>JobBuffer\<close> accumulates (job, status) pairs and hands them to a caller-supplied
  asynchronous callback when \<^verbatim>\<open>max_size\<close> is reached (\<^verbatim>\<open>add_job\<close>) or when nothing
  has been added for \<^verbatim>\<open>timeout\<close> (\<^verbatim>\<open>monitor\<close>).

  The embedding is sequential: each of \<^verbatim>\<open>add_job\<close>, \<^verbatim>\<open>flush_jobs\<close> and the locked
  section of \<^verbatim>\<open>monitor\<close> is one state transformer, run from start to end. What the
  program takes from its environment is an argument of the transformer:
  \<^item> the reading of \<^verbatim>\<open>_perf_counter_dt()\<close>, an \<open>int\<close> (a \<^verbatim>\<open>datetime\<close> counts whole
    microseconds, and so does the \<^verbatim>\<open>timedelta\<close> \<^verbatim>\<open>timeout\<close>);
  \<^item> the outcome of awaiting \<^verbatim>\<open>flush_callback\<close>, a \<open>bool\<close>: \<open>True\<close> when the callback
    returns, \<open>False\<close> when it raises. The callback is taken not to change the list it
    is given and the buffer it belongs to.
  Jobs and statuses are opaque: the type variables \<open>'j\<close> and \<open>'s\<close>.
\<close>

subsection \<open>Data\<close>

datatype error = SinkFailure

text \<open>
  How a coroutine ends: it returns, it raises, or it is still suspended (it waits for
  the lock, or the monitor loop has not left its loop when the script of the
  environment ends).
\<close>

datatype outcome = Returned | Raised error | Pending

text \<open>
  What an operation does to the lock, to the shared fields and to the callback, in
  program order. The buffer carries the list of these actions as a history field.
\<close>

datatype ('j, 's) action =
    Acquire
  | Release
  | Append "'j \<times> 's"
  | Stamp int
  | Sink "('j \<times> 's) list" bool
  | Clear

text \<open>
  The fields of \<^verbatim>\<open>JobBuffer\<close>. \<open>lock\<close> is the state of the \<^verbatim>\<open>asyncio.Lock\<close>: \<open>True\<close>
  while a task holds it. \<open>alive\<close> is the state of the \<^verbatim>\<open>asyncio.Event\<close>. \<open>trace\<close> is
  the history of actions; the program has no such field.
\<close>

record ('j, 's) JobBuffer =
  max_size :: int
  timeout :: int
  alive :: bool
  events :: "('j \<times> 's) list"
  last_event_time :: int
  lock :: bool
  trace :: "('j, 's) action list"

subsection \<open>Construction\<close>

text \<open>
  \<^verbatim>\<open>__init__\<close> stores its arguments as they are, sets \<^verbatim>\<open>alive\<close>, starts with no
  events and reads the clock once (\<open>now\<close>).
\<close>

definition JobBuffer_init :: "int \<Rightarrow> int \<Rightarrow> int \<Rightarrow> ('j, 's) JobBuffer" where
  "JobBuffer_init ms tmo now =
     \<lparr>max_size = ms, timeout = tmo, alive = True, events = [],
      last_event_time = now, lock = False, trace = []\<rparr>"

subsection \<open>The lock\<close>

definition record_action :: "('j, 's) action \<Rightarrow> ('j, 's) JobBuffer \<Rightarrow> ('j, 's) JobBuffer" where
  "record_action a b = b\<lparr>trace := trace b @ [a]\<rparr>"

text \<open>
  \<^verbatim>\<open>async with self.lock:\<close> waits while the lock is held; with no other task running
  inside a transformer, a held lock is never released, and the coroutine stays
  suspended. Otherwise the lock is taken, the body runs, and the lock is released on
  every way out of the body, also when the body raises.
\<close>

definition with_lock ::
  "(('j, 's) JobBuffer \<Rightarrow> outcome \<times> ('j, 's) JobBuffer) \<Rightarrow>
   ('j, 's) JobBuffer \<Rightarrow> outcome \<times> ('j, 's) JobBuffer" where
  "with_lock body b =
     (if lock b then (Pending, b)
      else (case body (record_action Acquire (b\<lparr>lock := True\<rparr>)) of
              (Pending, b') \<Rightarrow> (Pending, b')
            | (r, b') \<Rightarrow> (r, record_action Release (b'\<lparr>lock := False\<rparr>))))"

subsection \<open>flush_jobs\<close>

text \<open>
  \<^verbatim>\<open>if self.events: await self.flush_callback(self.events); self.events.clear()\<close>.
  When the callback raises, the exception leaves \<^verbatim>\<open>flush_jobs\<close> before the clear.
  There is no lock statement in \<^verbatim>\<open>flush_jobs\<close>.
\<close>

definition flush_jobs :: "bool \<Rightarrow> ('j, 's) JobBuffer \<Rightarrow> outcome \<times> ('j, 's) JobBuffer" where
  "flush_jobs ok b =
     (if events b \<noteq> [] then
        (let b1 = record_action (Sink (events b) ok) b
         in if ok then (Returned, record_action Clear (b1\<lparr>events := []\<rparr>))
            else (Raised SinkFailure, b1))
      else (Returned, b))"

subsection \<open>add_job\<close>

text \<open>
  Under the lock: append the pair, read the clock into \<^verbatim>\<open>last_event_time\<close>, and
  flush when \<^verbatim>\<open>len(self.events) >= self.max_size\<close>.
\<close>

definition add_job ::
  "'j \<Rightarrow> 's \<Rightarrow> int \<Rightarrow> bool \<Rightarrow> ('j, 's) JobBuffer \<Rightarrow> outcome \<times> ('j, 's) JobBuffer" where
  "add_job job status now ok =
     with_lock (\<lambda>b.
       let b1 = record_action (Append (job, status)) (b\<lparr>events := events b @ [(job, status)]\<rparr>);
           b2 = record_action (Stamp now) (b1\<lparr>last_event_time := now\<rparr>)
       in if int (length (events b2)) \<ge> max_size b2 then flush_jobs ok b2
          else (Returned, b2))"

subsection \<open>monitor\<close>

text \<open>
  The locked section of one turn of the loop, after the sleep:
  \<^verbatim>\<open>if _perf_counter_dt() - self.last_event_time >= self.timeout: await self.flush_jobs()\<close>.
\<close>

definition monitor_check :: "int \<Rightarrow> bool \<Rightarrow> ('j, 's) JobBuffer \<Rightarrow> outcome \<times> ('j, 's) JobBuffer" where
  "monitor_check now ok =
     with_lock (\<lambda>b.
       if now - last_event_time b \<ge> timeout b then flush_jobs ok b
       else (Returned, b))"

text \<open>
  What other tasks may do to the buffer: the three operations, and
  \<^verbatim>\<open>alive.clear()\<close>, the stop signal.
\<close>

datatype ('j, 's) call =
    AddJob 'j 's int bool
  | FlushJobs bool
  | MonitorCheck int bool
  | ClearAlive

fun run_call :: "('j, 's) call \<Rightarrow> ('j, 's) JobBuffer \<Rightarrow> outcome \<times> ('j, 's) JobBuffer" where
  "run_call (AddJob job status now ok) b = add_job job status now ok b"
| "run_call (FlushJobs ok) b = flush_jobs ok b"
| "run_call (MonitorCheck now ok) b = monitor_check now ok b"
| "run_call ClearAlive b = (Returned, b\<lparr>alive := False\<rparr>)"

text \<open>
  A sequence of calls, one after the other; each outcome goes to the caller of that
  call, and the buffer goes on to the next call whatever the outcome was.
\<close>

fun run_calls ::
  "('j, 's) call list \<Rightarrow> ('j, 's) JobBuffer \<Rightarrow> outcome list \<times> ('j, 's) JobBuffer" where
  "run_calls [] b = ([], b)"
| "run_calls (c # cs) b =
     (case run_call c b of (r, b1) \<Rightarrow>
        (case run_calls cs b1 of (rs, b2) \<Rightarrow> (r # rs, b2)))"

text \<open>
  One turn of the monitor loop as the environment sees it: the calls of other tasks
  while the monitor sleeps and waits for the lock, the clock reading of the check,
  and the outcome of the callback should the check flush.
\<close>

datatype ('j, 's) cycle =
  Cycle (sleep_calls: "('j, 's) call list") (wake_time: int) (sink_ok: bool)

text \<open>
  \<^verbatim>\<open>while self.alive.is_set(): await asyncio.sleep(...); async with self.lock: ...\<close>.
  The loop may run forever; it is run against a finite script of turns, and is
  \<open>Pending\<close> when the script ends with \<^verbatim>\<open>alive\<close> still set. An exception of the
  locked section leaves the loop.
\<close>

fun monitor :: "('j, 's) cycle list \<Rightarrow> ('j, 's) JobBuffer \<Rightarrow> outcome \<times> ('j, 's) JobBuffer" where
  "monitor [] b = (if alive b then (Pending, b) else (Returned, b))"
| "monitor (c # cs) b =
     (if alive b then
        (case monitor_check (wake_time c) (sink_ok c) (snd (run_calls (sleep_calls c) b)) of
           (Returned, b') \<Rightarrow> monitor cs b'
         | (r, b') \<Rightarrow> (r, b'))
      else (Returned, b))"


section \<open>Histories\<close>

text \<open>
  The actions an operation added to the history: what \<open>b'\<close> has after the history
  of \<open>b\<close>.
\<close>

definition new_actions :: "('j, 's) JobBuffer \<Rightarrow> ('j, 's) JobBuffer \<Rightarrow> ('j, 's) action list" where
  "new_actions b b' = drop (length (trace b)) (trace b')"

text \<open>The invocations of the callback in a history: each batch with its outcome.\<close>

fun sinks :: "('j, 's) action list \<Rightarrow> (('j \<times> 's) list \<times> bool) list" where
  "sinks [] = []"
| "sinks (Sink batch ok # tr) = (batch, ok) # sinks tr"
| "sinks (a # tr) = sinks tr"

text \<open>No invocation of the callback in the history returned.\<close>

definition no_success :: "('j, 's) action list \<Rightarrow> bool" where
  "no_success tr = (\<forall>x \<in> set (sinks tr). \<not> snd x)"

text \<open>The pairs a history appended, in order.\<close>

fun appended :: "('j, 's) action list \<Rightarrow> ('j \<times> 's) list" where
  "appended [] = []"
| "appended (Append e # tr) = e # appended tr"
| "appended (a # tr) = appended tr"

text \<open>
  Lock discipline of a history that starts with the lock held or not (\<open>held\<close>):
  every append, every write of the time stamp, every invocation of the callback and
  every clear happens between an \<open>Acquire\<close> and the next \<open>Release\<close>.
  \<open>held_after\<close> is the state of the lock at the end of the history.
\<close>

fun guarded :: "bool \<Rightarrow> ('j, 's) action list \<Rightarrow> bool" where
  "guarded held [] = True"
| "guarded held (Acquire # tr) = guarded True tr"
| "guarded held (Release # tr) = guarded False tr"
| "guarded held (a # tr) = (held \<and> guarded held tr)"

fun held_after :: "bool \<Rightarrow> ('j, 's) action list \<Rightarrow> bool" where
  "held_after held [] = held"
| "held_after held (Acquire # tr) = held_after True tr"
| "held_after held (Release # tr) = held_after False tr"
| "held_after held (a # tr) = held_after held tr"

text \<open>
  The pending events that a history leaves when it starts from the pending events
  \<open>ev\<close>: an append extends them, a callback that returns is followed by the clear.
  The result is \<open>None\<close> when some invocation of the callback in the history was
  given anything else than the events pending at that point.
\<close>

fun replay :: "('j \<times> 's) list \<Rightarrow> ('j, 's) action list \<Rightarrow> ('j \<times> 's) list option" where
  "replay ev [] = Some ev"
| "replay ev (Append e # tr) = replay (ev @ [e]) tr"
| "replay ev (Sink batch ok # tr) =
     (if batch = ev then replay (if ok then [] else ev) tr else None)"
| "replay ev (a # tr) = replay ev tr"

text \<open>The pairs that the \<^verbatim>\<open>add_job\<close> calls of a sequence of calls carry.\<close>

fun added :: "('j, 's) call list \<Rightarrow> ('j \<times> 's) list" where
  "added [] = []"
| "added (AddJob job status now ok # cs) = (job, status) # added cs"
| "added (c # cs) = added cs"

text \<open>The outcome the environment gives the callback in a call.\<close>

fun sink_outcome :: "('j, 's) call \<Rightarrow> bool" where
  "sink_outcome (AddJob job status now ok) = ok"
| "sink_outcome (FlushJobs ok) = ok"
| "sink_outcome (MonitorCheck now ok) = ok"
| "sink_outcome ClearAlive = False"

text \<open>
  The calls that take no lock: a direct \<^verbatim>\<open>flush_jobs\<close>. The lock puts
  \<^verbatim>\<open>add_job\<close> calls and checks of the monitor one after the other, whatever the
  tasks do; \<^verbatim>\<open>alive.clear()\<close> has no await and touches no event.
\<close>

fun direct_flush :: "('j, 's) call \<Rightarrow> bool" where
  "direct_flush (FlushJobs ok) = True"
| "direct_flush c = False"

text \<open>
  \<^verbatim>\<open>flush_jobs\<close> from its await on: the callback that was given \<open>batch\<close> ends with
  \<open>ok\<close>, and \<^verbatim>\<open>self.events.clear()\<close> follows when it returned. Between the
  invocation and this, a direct \<^verbatim>\<open>flush_jobs\<close> holds no lock, and other tasks run.
\<close>

definition flush_jobs_resume ::
  "('j \<times> 's) list \<Rightarrow> bool \<Rightarrow> ('j, 's) JobBuffer \<Rightarrow> outcome \<times> ('j, 's) JobBuffer" where
  "flush_jobs_resume batch ok b =
     (let b1 = record_action (Sink batch ok) b
      in if ok then (Returned, record_action Clear (b1\<lparr>events := []\<rparr>))
         else (Raised SinkFailure, b1))"

text \<open>
  A sequence of \<^verbatim>\<open>add_job\<close> calls, each with its job, status and clock reading, all
  with the same outcome of the callback; and the pairs they carry.
\<close>

definition adds :: "bool \<Rightarrow> ('j \<times> 's \<times> int) list \<Rightarrow> ('j, 's) call list" where
  "adds ok xs = map (\<lambda>(job, status, now). AddJob job status now ok) xs"

definition pairs :: "('j \<times> 's \<times> int) list \<Rightarrow> ('j \<times> 's) list" where
  "pairs xs = map (\<lambda>(job, status, now). (job, status)) xs"

text \<open>
  A list cut into consecutive runs of \<open>n\<close> elements: \<open>batches\<close> are the full runs,
  \<open>leftover\<close> is the shorter rest.
\<close>

fun batches :: "nat \<Rightarrow> 'a list \<Rightarrow> 'a list list" where
  "batches n xs =
     (if n = 0 \<or> length xs < n then [] else take n xs # batches n (drop n xs))"

fun leftover :: "nat \<Rightarrow> 'a list \<Rightarrow> 'a list" where
  "leftover n xs =
     (if n = 0 \<or> length xs < n then xs else leftover n (drop n xs))"

declare batches.simps [simp del] leftover.simps [simp del]

section \<open>Facts about histories and single operations\<close>

lemma sinks_append: "sinks (tr1 @ tr2) = sinks tr1 @ sinks tr2"
  by (induction tr1 rule: sinks.induct) simp_all

lemma guarded_append:
  "guarded h (tr1 @ tr2) = (guarded h tr1 \<and> guarded (held_after h tr1) tr2)"
  by (induction h tr1 rule: guarded.induct) auto

lemma held_after_append: "held_after h (tr1 @ tr2) = held_after (held_after h tr1) tr2"
  by (induction h tr1 rule: held_after.induct) auto

lemma batches_full:
  assumes "Suc (length ev) = n"
  shows "batches n (ev @ x # rest) = (ev @ [x]) # batches n rest"
proof -
  have "take n (ev @ x # rest) = ev @ [x]" "drop n (ev @ x # rest) = rest"
    using assms by auto
  moreover have "\<not> (n = 0 \<or> length (ev @ x # rest) < n)"
    using assms by auto
  ultimately show ?thesis
    by (subst batches.simps) (simp only: if_False)
qed

lemma leftover_full:
  assumes "Suc (length ev) = n"
  shows "leftover n (ev @ x # rest) = leftover n rest"
proof -
  have "drop n (ev @ x # rest) = rest"
    using assms by auto
  moreover have "\<not> (n = 0 \<or> length (ev @ x # rest) < n)"
    using assms by auto
  ultimately show ?thesis
    by (subst leftover.simps) (simp only: if_False)
qed

lemma batches_length: "B \<in> set (batches n xs) \<Longrightarrow> length B = n"
  by (induction n xs rule: batches.induct) (subst (asm) batches.simps, auto split: if_splits)

lemma batches_leftover: "concat (batches n xs) @ leftover n xs = xs"
  by (induction n xs rule: batches.induct) (subst batches.simps, subst leftover.simps, auto)

lemma leftover_short: "0 < n \<Longrightarrow> length (leftover n xs) < n"
  by (induction n xs rule: leftover.induct) (subst leftover.simps, auto)


lemma add_job_below:
  "\<not> lock b \<Longrightarrow> int (length (events b)) + 1 < max_size b \<Longrightarrow>
   add_job j s t ok b =
     (Returned, b\<lparr>events := events b @ [(j, s)], last_event_time := t,
                  trace := trace b @ [Acquire, Append (j, s), Stamp t, Release]\<rparr>)"
  by (simp add: add_job_def with_lock_def record_action_def)

lemma add_job_flush_ok:
  "\<not> lock b \<Longrightarrow> max_size b \<le> int (length (events b)) + 1 \<Longrightarrow>
   add_job j s t True b =
     (Returned, b\<lparr>events := [], last_event_time := t,
                  trace := trace b @ [Acquire, Append (j, s), Stamp t,
                                      Sink (events b @ [(j, s)]) True, Clear, Release]\<rparr>)"
  by (simp add: add_job_def with_lock_def record_action_def flush_jobs_def)

lemma adds_ok_run:
  assumes "\<not> lock b" and "int (length (events b)) < max_size b"
  shows "\<exists>b' tr. run_calls (adds True xs) b = (replicate (length xs) Returned, b')
           \<and> trace b' = trace b @ tr
           \<and> sinks tr = map (\<lambda>B. (B, True)) (batches (nat (max_size b)) (events b @ pairs xs))
           \<and> events b' = leftover (nat (max_size b)) (events b @ pairs xs)
           \<and> guarded False tr \<and> \<not> held_after False tr"
  using assms
proof (induction xs arbitrary: b)
  case Nil
  then have "length (events b) < nat (max_size b)" by simp
  then show ?case
    by (simp add: adds_def pairs_def batches.simps leftover.simps)
next
  case (Cons x xs)
  obtain j s t where x: "x = (j, s, t)" by (cases x)
  let ?n = "nat (max_size b)"
  show ?case
  proof (cases "int (length (events b)) + 1 < max_size b")
    case True
    let ?b1 = "b\<lparr>events := events b @ [(j, s)], last_event_time := t,
                  trace := trace b @ [Acquire, Append (j, s), Stamp t, Release]\<rparr>"
    have step: "add_job j s t True b = (Returned, ?b1)"
      using Cons.prems True by (rule_tac add_job_below) simp_all
    have "\<not> lock ?b1" "int (length (events ?b1)) < max_size ?b1"
      using Cons.prems True by simp_all
    from Cons.IH [OF this] obtain b' tr where
      run: "run_calls (adds True xs) ?b1 = (replicate (length xs) Returned, b')"
      and tr: "trace b' = trace ?b1 @ tr"
      and sk: "sinks tr = map (\<lambda>B. (B, True)) (batches (nat (max_size ?b1)) (events ?b1 @ pairs xs))"
      and ev: "events b' = leftover (nat (max_size ?b1)) (events ?b1 @ pairs xs)"
      and g: "guarded False tr" "\<not> held_after False tr"
      by blast
    let ?tr = "[Acquire, Append (j, s), Stamp t, Release] @ tr"
    have "run_calls (adds True (x # xs)) b = (replicate (length (x # xs)) Returned, b')"
      using run step x by (simp add: adds_def)
    moreover have "trace b' = trace b @ ?tr" using tr by simp
    moreover have "sinks ?tr = map (\<lambda>B. (B, True)) (batches ?n (events b @ pairs (x # xs)))"
      using sk x by (simp add: pairs_def)
    moreover have "events b' = leftover ?n (events b @ pairs (x # xs))"
      using ev x by (simp add: pairs_def)
    moreover have "guarded False ?tr" "\<not> held_after False ?tr" using g by simp_all
    ultimately show ?thesis by blast
  next
    case False
    then have full: "Suc (length (events b)) = ?n" using Cons.prems by linarith
    let ?b1 = "b\<lparr>events := [], last_event_time := t,
                  trace := trace b @ [Acquire, Append (j, s), Stamp t,
                                      Sink (events b @ [(j, s)]) True, Clear, Release]\<rparr>"
    have step: "add_job j s t True b = (Returned, ?b1)"
      using Cons.prems False by (rule_tac add_job_flush_ok) simp_all
    have "\<not> lock ?b1" "int (length (events ?b1)) < max_size ?b1"
      using Cons.prems by simp_all
    from Cons.IH [OF this] obtain b' tr where
      run: "run_calls (adds True xs) ?b1 = (replicate (length xs) Returned, b')"
      and tr: "trace b' = trace ?b1 @ tr"
      and sk: "sinks tr = map (\<lambda>B. (B, True)) (batches (nat (max_size ?b1)) (events ?b1 @ pairs xs))"
      and ev: "events b' = leftover (nat (max_size ?b1)) (events ?b1 @ pairs xs)"
      and g: "guarded False tr" "\<not> held_after False tr"
      by blast
    let ?tr = "[Acquire, Append (j, s), Stamp t, Sink (events b @ [(j, s)]) True, Clear, Release] @ tr"
    have "run_calls (adds True (x # xs)) b = (replicate (length (x # xs)) Returned, b')"
      using run step x by (simp add: adds_def)
    moreover have "trace b' = trace b @ ?tr" using tr by simp
    moreover have "sinks ?tr = map (\<lambda>B. (B, True)) (batches ?n (events b @ pairs (x # xs)))"
      using sk x batches_full [OF full, of "(j, s)" "pairs xs"] by (simp add: pairs_def)
    moreover have "events b' = leftover ?n (events b @ pairs (x # xs))"
      using ev x leftover_full [OF full, of "(j, s)" "pairs xs"] by (simp add: pairs_def)
    moreover have "guarded False ?tr" "\<not> held_after False ?tr" using g by simp_all
    ultimately show ?thesis by blast
  qed
qed


lemma appended_append: "appended (tr1 @ tr2) = appended tr1 @ appended tr2"
  by (induction tr1 rule: appended.induct) simp_all

lemma replay_append:
  "replay ev (tr1 @ tr2) = (case replay ev tr1 of None \<Rightarrow> None | Some ev' \<Rightarrow> replay ev' tr2)"
  by (induction ev tr1 rule: replay.induct) simp_all

lemma replay_no_success:
  "replay ev tr = Some ev' \<Longrightarrow> no_success tr \<Longrightarrow> ev' = ev @ appended tr"
  by (induction ev tr rule: replay.induct) (auto simp: no_success_def split: if_splits)

lemma no_success_append: "no_success (tr1 @ tr2) = (no_success tr1 \<and> no_success tr2)"
  by (auto simp: no_success_def sinks_append)

lemma flush_jobs_trace:
  "\<exists>tr. trace (snd (flush_jobs ok b)) = trace b @ tr
      \<and> replay (events b) tr = Some (events (snd (flush_jobs ok b)))
      \<and> appended tr = [] \<and> (\<not> ok \<longrightarrow> no_success tr)
      \<and> lock (snd (flush_jobs ok b)) = lock b"
  by (cases ok) (simp_all add: flush_jobs_def record_action_def no_success_def Let_def)

lemma add_job_trace:
  "\<exists>tr. trace (snd (add_job j s t ok b)) = trace b @ tr
      \<and> replay (events b) tr = Some (events (snd (add_job j s t ok b)))
      \<and> (\<not> lock b \<longrightarrow> appended tr = [(j, s)]) \<and> (\<not> ok \<longrightarrow> no_success tr)
      \<and> lock (snd (add_job j s t ok b)) = lock b"
  by (cases ok) (simp_all add: add_job_def with_lock_def flush_jobs_def record_action_def no_success_def Let_def)

lemma monitor_check_trace:
  "\<exists>tr. trace (snd (monitor_check t ok b)) = trace b @ tr
      \<and> replay (events b) tr = Some (events (snd (monitor_check t ok b)))
      \<and> appended tr = [] \<and> (\<not> ok \<longrightarrow> no_success tr)
      \<and> lock (snd (monitor_check t ok b)) = lock b"
  by (cases ok) (simp_all add: monitor_check_def with_lock_def flush_jobs_def record_action_def no_success_def Let_def)

lemma run_call_trace:
  "\<exists>tr. trace (snd (run_call c b)) = trace b @ tr
      \<and> replay (events b) tr = Some (events (snd (run_call c b)))
      \<and> (\<not> lock b \<longrightarrow> appended tr = added [c]) \<and> (\<not> sink_outcome c \<longrightarrow> no_success tr)
      \<and> lock (snd (run_call c b)) = lock b"
proof (cases c)
  case (AddJob j s t ok)
  then show ?thesis using add_job_trace [of j s t ok b] by auto
next
  case (FlushJobs ok)
  then show ?thesis using flush_jobs_trace [of ok b] by auto
next
  case (MonitorCheck t ok)
  then show ?thesis using monitor_check_trace [of t ok b] by auto
next
  case ClearAlive
  then show ?thesis by (simp add: no_success_def)
qed

lemma added_Cons: "added (c # cs) = added [c] @ added cs"
  by (cases c) simp_all

lemma run_calls_trace:
  "\<exists>tr. trace (snd (run_calls cs b)) = trace b @ tr
      \<and> replay (events b) tr = Some (events (snd (run_calls cs b)))
      \<and> (\<not> lock b \<longrightarrow> appended tr = added cs)
      \<and> ((\<forall>c \<in> set cs. \<not> sink_outcome c) \<longrightarrow> no_success tr)
      \<and> lock (snd (run_calls cs b)) = lock b"
proof (induction cs arbitrary: b)
  case Nil
  then show ?case by (simp add: no_success_def)
next
  case (Cons c cs)
  let ?b1 = "snd (run_call c b)"
  obtain tr1 where 1: "trace ?b1 = trace b @ tr1"
      "replay (events b) tr1 = Some (events ?b1)"
      "\<not> lock b \<longrightarrow> appended tr1 = added [c]" "\<not> sink_outcome c \<longrightarrow> no_success tr1"
      "lock ?b1 = lock b"
    using run_call_trace [of c b] by blast
  obtain tr2 where 2: "trace (snd (run_calls cs ?b1)) = trace ?b1 @ tr2"
      "replay (events ?b1) tr2 = Some (events (snd (run_calls cs ?b1)))"
      "\<not> lock ?b1 \<longrightarrow> appended tr2 = added cs"
      "(\<forall>c \<in> set cs. \<not> sink_outcome c) \<longrightarrow> no_success tr2"
      "lock (snd (run_calls cs ?b1)) = lock ?b1"
    using Cons.IH [of ?b1] by blast
  have eq: "snd (run_calls (c # cs) b) = snd (run_calls cs ?b1)"
    by (simp split: prod.splits)
  have "trace (snd (run_calls (c # cs) b)) = trace b @ (tr1 @ tr2)"
    using 1 2 eq by simp
  moreover have "replay (events b) (tr1 @ tr2) = Some (events (snd (run_calls (c # cs) b)))"
    using 1 2 eq by (simp add: replay_append)
  moreover have "\<not> lock b \<longrightarrow> appended (tr1 @ tr2) = added (c # cs)"
    using 1 2 added_Cons [of c cs] by (simp add: appended_append)
  moreover have "(\<forall>c' \<in> set (c # cs). \<not> sink_outcome c') \<longrightarrow> no_success (tr1 @ tr2)"
    using 1 2 by (simp add: no_success_append)
  moreover have "lock (snd (run_calls (c # cs) b)) = lock b"
    using 1 2 eq by simp
  ultimately show ?case by blast
qed

lemma resend:
  assumes "replay ev (pre @ Sink E False # mid @ Sink E' True # post) = Some ev'"
    and "no_success mid"
  shows "E' = E @ appended mid"
proof -
  from assms(1) obtain ev1 where 1: "replay ev pre = Some ev1"
    and 2: "replay ev1 (Sink E False # mid @ Sink E' True # post) = Some ev'"
    by (auto simp: replay_append split: option.splits)
  from 2 have E: "E = ev1" and 3: "replay E (mid @ Sink E' True # post) = Some ev'"
    by (auto split: if_splits)
  from 3 obtain ev2 where 4: "replay E mid = Some ev2"
    and 5: "replay ev2 (Sink E' True # post) = Some ev'"
    by (auto simp: replay_append split: option.splits)
  from 5 have "E' = ev2" by (auto split: if_splits)
  with replay_no_success [OF 4 assms(2)] show ?thesis by simp
qed


lemma new_actions_append: "trace b' = trace b @ tr \<Longrightarrow> new_actions b b' = tr"
  by (simp add: new_actions_def)

lemma batches_lengths: "0 < n \<Longrightarrow> map length (batches n xs) = replicate (length xs div n) n"
proof (induction n xs rule: batches.induct)
  case (1 n xs)
  show ?case
  proof (cases "length xs < n")
    case True
    then show ?thesis by (subst batches.simps) simp
  next
    case False
    then have "length xs div n = Suc ((length xs - n) div n)"
      using 1(2) by (simp add: le_div_geq)
    moreover have "map length (batches n (drop n xs)) = replicate ((length xs - n) div n) n"
      using 1 False by simp
    ultimately show ?thesis
      using False 1(2) by (subst batches.simps) simp
  qed
qed

lemma flush_jobs_fail:
  "events b \<noteq> [] \<Longrightarrow>
   flush_jobs False b = (Raised SinkFailure, b\<lparr>trace := trace b @ [Sink (events b) False]\<rparr>)"
  by (simp add: flush_jobs_def record_action_def)

lemma add_job_flush_fail:
  "\<not> lock b \<Longrightarrow> max_size b \<le> int (length (events b)) + 1 \<Longrightarrow>
   add_job j s t False b =
     (Raised SinkFailure, b\<lparr>events := events b @ [(j, s)], last_event_time := t,
                  trace := trace b @ [Acquire, Append (j, s), Stamp t,
                                      Sink (events b @ [(j, s)]) False, Release]\<rparr>)"
  by (simp add: add_job_def with_lock_def record_action_def flush_jobs_def)

lemma monitor_check_idle:
  "\<not> lock b \<Longrightarrow> now - last_event_time b < timeout b \<or> events b = [] \<Longrightarrow>
   monitor_check now ok b = (Returned, b\<lparr>trace := trace b @ [Acquire, Release]\<rparr>)"
  by (auto simp add: monitor_check_def with_lock_def record_action_def flush_jobs_def)

lemma monitor_check_ok:
  "\<not> lock b \<Longrightarrow> timeout b \<le> now - last_event_time b \<Longrightarrow> events b \<noteq> [] \<Longrightarrow>
   monitor_check now True b =
     (Returned, b\<lparr>events := [],
                  trace := trace b @ [Acquire, Sink (events b) True, Clear, Release]\<rparr>)"
  by (auto simp add: monitor_check_def with_lock_def record_action_def flush_jobs_def)

lemma monitor_check_fail:
  "\<not> lock b \<Longrightarrow> timeout b \<le> now - last_event_time b \<Longrightarrow> events b \<noteq> [] \<Longrightarrow>
   monitor_check now False b =
     (Raised SinkFailure, b\<lparr>trace := trace b @ [Acquire, Sink (events b) False, Release]\<rparr>)"
  by (auto simp add: monitor_check_def with_lock_def record_action_def flush_jobs_def)

lemma monitor_check_cases:
  assumes "\<not> lock b"
  shows "monitor_check now ok b =
     (if timeout b \<le> now - last_event_time b \<and> events b \<noteq> [] then
        (if ok then
           (Returned, b\<lparr>events := [],
                        trace := trace b @ [Acquire, Sink (events b) True, Clear, Release]\<rparr>)
         else
           (Raised SinkFailure,
            b\<lparr>trace := trace b @ [Acquire, Sink (events b) False, Release]\<rparr>))
      else (Returned, b\<lparr>trace := trace b @ [Acquire, Release]\<rparr>))"
proof (cases "timeout b \<le> now - last_event_time b \<and> events b \<noteq> []")
  case True
  then show ?thesis
    using assms monitor_check_ok [of b now] monitor_check_fail [of b now] by (cases ok) simp_all
next
  case False
  then have "now - last_event_time b < timeout b \<or> events b = []" by auto
  from monitor_check_idle [OF assms this, of ok] False show ?thesis by auto
qed

lemma monitor_check_alive: "alive (snd (monitor_check now ok b)) = alive b"
  by (cases ok) (simp_all add: monitor_check_def with_lock_def record_action_def flush_jobs_def Let_def)

lemma monitor_check_not_pending: "\<not> lock b \<Longrightarrow> fst (monitor_check now ok b) \<noteq> Pending"
  by (simp add: monitor_check_cases)

lemma monitor_check_sinks:
  "\<not> lock b \<Longrightarrow> length (sinks (new_actions b (snd (monitor_check now ok b)))) \<le> 1"
  by (simp add: monitor_check_cases new_actions_def)

lemma run_calls_lock: "lock (snd (run_calls cs b)) = lock b"
  using run_calls_trace [of cs b] by blast

lemma monitor_last_turn:
  assumes "alive b" and "\<not> alive (snd (run_calls (sleep_calls c) b))"
  shows "monitor (c # cs) b =
           monitor_check (wake_time c) (sink_ok c) (snd (run_calls (sleep_calls c) b))"
proof -
  let ?b1 = "snd (run_calls (sleep_calls c) b)"
  obtain r b2 where chk: "monitor_check (wake_time c) (sink_ok c) ?b1 = (r, b2)"
    by (cases "monitor_check (wake_time c) (sink_ok c) ?b1")
  have "\<not> alive b2"
    using monitor_check_alive [of "wake_time c" "sink_ok c" ?b1] chk assms(2) by simp
  then have "monitor cs b2 = (Returned, b2)"
    by (cases cs) simp_all
  then show ?thesis
    using assms(1) chk by (cases r) simp_all
qed

lemma monitor_stopped: "\<not> alive b \<Longrightarrow> monitor cs b = (Returned, b)"
  by (cases cs) simp_all

lemma monitor_raise:
  assumes "alive b"
    and "fst (monitor_check (wake_time c) (sink_ok c) (snd (run_calls (sleep_calls c) b))) = Raised e"
  shows "monitor (c # cs) b =
           monitor_check (wake_time c) (sink_ok c) (snd (run_calls (sleep_calls c) b))"
  using assms
  by (cases "monitor_check (wake_time c) (sink_ok c) (snd (run_calls (sleep_calls c) b))") simp

lemma run_call_alive: "alive (snd (run_call c b)) \<Longrightarrow> alive b"
proof (cases c)
  case (AddJob j s t ok)
  assume "alive (snd (run_call c b))"
  with AddJob show ?thesis
    by (cases ok)
       (simp_all add: add_job_def with_lock_def record_action_def flush_jobs_def Let_def
          split: if_splits)
next
  case (FlushJobs ok)
  assume "alive (snd (run_call c b))"
  with FlushJobs show ?thesis
    by (cases ok) (simp_all add: record_action_def flush_jobs_def Let_def split: if_splits)
next
  case (MonitorCheck t ok)
  assume "alive (snd (run_call c b))"
  with MonitorCheck show ?thesis by (simp add: monitor_check_alive)
next
  case ClearAlive
  assume "alive (snd (run_call c b))"
  with ClearAlive show ?thesis by simp
qed

lemma run_calls_alive: "alive (snd (run_calls cs b)) \<Longrightarrow> alive b"
proof (induction cs arbitrary: b)
  case Nil
  then show ?case by simp
next
  case (Cons c cs)
  have "snd (run_calls (c # cs) b) = snd (run_calls cs (snd (run_call c b)))"
    by (simp split: prod.splits)
  with Cons.prems have "alive (snd (run_calls cs (snd (run_call c b))))" by simp
  then have "alive (snd (run_call c b))" by (rule Cons.IH)
  then show ?case by (rule run_call_alive)
qed

lemma run_calls_stop: "ClearAlive \<in> set cs \<Longrightarrow> \<not> alive (snd (run_calls cs b))"
proof (induction cs arbitrary: b)
  case Nil
  then show ?case by simp
next
  case (Cons c cs)
  have eq: "snd (run_calls (c # cs) b) = snd (run_calls cs (snd (run_call c b)))"
    by (simp split: prod.splits)
  show ?case
  proof (cases "c = ClearAlive")
    case True
    then have "\<not> alive (snd (run_call c b))" by simp
    then have "\<not> alive (snd (run_calls cs (snd (run_call c b))))"
      using run_calls_alive by blast
    with eq show ?thesis by simp
  next
    case False
    with Cons.prems have "ClearAlive \<in> set cs" by simp
    from Cons.IH [OF this] eq show ?thesis by simp
  qed
qed

lemma monitor_check_lock: "lock (snd (monitor_check now ok b)) = lock b"
  using monitor_check_trace [of now ok b] by blast

lemma monitor_returns:
  "\<not> lock b \<Longrightarrow> \<exists>c \<in> set cs. ClearAlive \<in> set (sleep_calls c) \<Longrightarrow>
   fst (monitor cs b) \<noteq> Pending"
proof (induction cs arbitrary: b)
  case Nil
  then show ?case by simp
next
  case (Cons c cs)
  let ?b1 = "snd (run_calls (sleep_calls c) b)"
  have l1: "\<not> lock ?b1" using Cons.prems(1) by (simp add: run_calls_lock)
  obtain r b2 where chk: "monitor_check (wake_time c) (sink_ok c) ?b1 = (r, b2)"
    by (cases "monitor_check (wake_time c) (sink_ok c) ?b1")
  have r: "r \<noteq> Pending" using monitor_check_not_pending [OF l1, of "wake_time c" "sink_ok c"] chk by simp
  have l2: "\<not> lock b2" using monitor_check_lock [of "wake_time c" "sink_ok c" ?b1] chk l1 by simp
  show ?case
  proof (cases "alive b")
    case False
    then show ?thesis by simp
  next
    case True
    show ?thesis
    proof (cases "ClearAlive \<in> set (sleep_calls c)")
      case True
      then have "\<not> alive ?b1" by (rule run_calls_stop)
      from monitor_last_turn [OF \<open>alive b\<close> this, of cs] chk r show ?thesis by simp
    next
      case False
      with Cons.prems(2) have "\<exists>c \<in> set cs. ClearAlive \<in> set (sleep_calls c)" by simp
      from Cons.IH [OF l2 this] have "fst (monitor cs b2) \<noteq> Pending" .
      then show ?thesis using \<open>alive b\<close> chk r by (cases r) simp_all
    qed
  qed
qed

lemma adds_small_run:
  assumes "\<not> lock b" and "max_size b \<le> 1" and "events b = []"
  shows "\<exists>b' tr. run_calls (adds True xs) b = (replicate (length xs) Returned, b')
           \<and> trace b' = trace b @ tr
           \<and> sinks tr = map (\<lambda>p. ([p], True)) (pairs xs)
           \<and> events b' = []"
  using assms
proof (induction xs arbitrary: b)
  case Nil
  then show ?case by (simp add: adds_def pairs_def)
next
  case (Cons x xs)
  obtain j s t where x: "x = (j, s, t)" by (cases x)
  let ?b1 = "b\<lparr>events := [], last_event_time := t,
                trace := trace b @ [Acquire, Append (j, s), Stamp t,
                                    Sink (events b @ [(j, s)]) True, Clear, Release]\<rparr>"
  have step: "add_job j s t True b = (Returned, ?b1)"
    using Cons.prems by (rule_tac add_job_flush_ok) simp_all
  have "\<not> lock ?b1" "max_size ?b1 \<le> 1" "events ?b1 = []"
    using Cons.prems by simp_all
  from Cons.IH [OF this] obtain b' tr where
    run: "run_calls (adds True xs) ?b1 = (replicate (length xs) Returned, b')"
    and tr: "trace b' = trace ?b1 @ tr"
    and sk: "sinks tr = map (\<lambda>p. ([p], True)) (pairs xs)"
    and ev: "events b' = []"
    by blast
  let ?tr = "[Acquire, Append (j, s), Stamp t, Sink (events b @ [(j, s)]) True, Clear, Release] @ tr"
  have "run_calls (adds True (x # xs)) b = (replicate (length (x # xs)) Returned, b')"
    using run step x by (simp add: adds_def)
  moreover have "trace b' = trace b @ ?tr" using tr by simp
  moreover have "sinks ?tr = map (\<lambda>p. ([p], True)) (pairs (x # xs))"
    using sk x Cons.prems(3) by (simp add: pairs_def)
  ultimately show ?case using ev by blast
qed

lemma flush_jobs_resume_whole:
  "flush_jobs ok b = (if events b \<noteq> [] then flush_jobs_resume (events b) ok b else (Returned, b))"
  by (simp add: flush_jobs_def flush_jobs_resume_def)

lemma locked_paths_guarded:
  assumes "\<not> lock b"
  shows "guarded False (new_actions b (snd (add_job job status now ok b)))"
    and "guarded False (new_actions b (snd (monitor_check now ok b)))"
  using assms
  by (cases ok;
      simp add: new_actions_def add_job_def monitor_check_def with_lock_def record_action_def
        flush_jobs_def Let_def)+

text \<open>
  What the missing lock of \<^verbatim>\<open>flush_jobs\<close> costs, with \<^verbatim>\<open>max_size = 2\<close>. A direct
  \<^verbatim>\<open>flush_jobs\<close> gives the callback \<open>[(7, 8)]\<close> and waits for it. Meanwhile
  \<^verbatim>\<open>add_job(9, 8)\<close> takes the free lock, appends, and its own flush fails with
  \<open>[(7, 8), (9, 8)]\<close>, which keeps both pairs. Then the first callback returns and
  \<^verbatim>\<open>clear()\<close> empties the events: \<open>(9, 8)\<close> was in no batch of a callback that
  returned, and is gone.
\<close>

lemma flush_jobs_race_drops_event:
  "events (snd (add_job 7 8 2 True (JobBuffer_init 2 5 0 :: (nat, nat) JobBuffer))) = [(7, 8)]
   \<and> events (snd (add_job 9 8 3 False
                (snd (add_job 7 8 2 True (JobBuffer_init 2 5 0 :: (nat, nat) JobBuffer)))))
       = [(7, 8), (9, 8)]
   \<and> events (snd (flush_jobs_resume [(7, 8)] True
                (snd (add_job 9 8 3 False
                   (snd (add_job 7 8 2 True (JobBuffer_init 2 5 0 :: (nat, nat) JobBuffer)))))))
       = []
   \<and> sinks (trace (snd (flush_jobs_resume [(7, 8)] True
                (snd (add_job 9 8 3 False
                   (snd (add_job 7 8 2 True (JobBuffer_init 2 5 0 :: (nat, nat) JobBuffer))))))))
       = [([(7, 8), (9, 8)], False), ([(7, 8)], True)]"
  by (simp add: JobBuffer_init_def add_job_def flush_jobs_def flush_jobs_resume_def with_lock_def
        record_action_def)

section \<open>The claims\<close>

text \<open>
  Claim C1 (size trigger). Take a buffer whose lock is free and that holds fewer than
  \<^verbatim>\<open>max_size\<close> events, as a new buffer with a positive \<^verbatim>\<open>max_size\<close> does. An
  \<^verbatim>\<open>add_job\<close> whose callback returns invokes the callback exactly when the
  appended pair brings the count to \<^verbatim>\<open>max_size\<close>: between the same \<open>Acquire\<close> and
  \<open>Release\<close> as the append, with all pending events in insertion order, and the
  events are empty afterwards; otherwise the callback is not invoked. Over any sequence
  of such calls every call returns, the batches given to the callback are the
  consecutive runs of \<^verbatim>\<open>max_size\<close> events, each of length \<^verbatim>\<open>max_size\<close>, in order,
  and the shorter rest stays pending.
\<close>

theorem size_trigger_exactness:
  assumes "\<not> lock b" and "int (length (events b)) < max_size b"
  shows "add_job job status now True b =
           (Returned,
            if int (length (events b)) + 1 = max_size b then
              b\<lparr>events := [], last_event_time := now,
                trace := trace b @ [Acquire, Append (job, status), Stamp now,
                                    Sink (events b @ [(job, status)]) True, Clear, Release]\<rparr>
            else
              b\<lparr>events := events b @ [(job, status)], last_event_time := now,
                trace := trace b @ [Acquire, Append (job, status), Stamp now, Release]\<rparr>)
         \<and> fst (run_calls (adds True xs) b) = replicate (length xs) Returned
         \<and> sinks (new_actions b (snd (run_calls (adds True xs) b))) =
             map (\<lambda>batch. (batch, True)) (batches (nat (max_size b)) (events b @ pairs xs))
         \<and> map length (batches (nat (max_size b)) (events b @ pairs xs)) =
             replicate (length (events b @ pairs xs) div nat (max_size b)) (nat (max_size b))
         \<and> events (snd (run_calls (adds True xs) b)) =
             leftover (nat (max_size b)) (events b @ pairs xs)
         \<and> guarded False (new_actions b (snd (run_calls (adds True xs) b)))"
proof -
  have step: "add_job job status now True b =
           (Returned,
            if int (length (events b)) + 1 = max_size b then
              b\<lparr>events := [], last_event_time := now,
                trace := trace b @ [Acquire, Append (job, status), Stamp now,
                                    Sink (events b @ [(job, status)]) True, Clear, Release]\<rparr>
            else
              b\<lparr>events := events b @ [(job, status)], last_event_time := now,
                trace := trace b @ [Acquire, Append (job, status), Stamp now, Release]\<rparr>)"
  proof (cases "int (length (events b)) + 1 = max_size b")
    case True
    then show ?thesis using add_job_flush_ok [of b job status now] assms(1) by simp
  next
    case False
    with assms(2) have "int (length (events b)) + 1 < max_size b" by simp
    from add_job_below [OF assms(1) this, of job status now True] False show ?thesis by simp
  qed
  from adds_ok_run [OF assms, of xs] obtain b' tr where
    run: "run_calls (adds True xs) b = (replicate (length xs) Returned, b')"
    and tr: "trace b' = trace b @ tr"
    and sk: "sinks tr = map (\<lambda>B. (B, True)) (batches (nat (max_size b)) (events b @ pairs xs))"
    and ev: "events b' = leftover (nat (max_size b)) (events b @ pairs xs)"
    and g: "guarded False tr"
    by blast
  have na: "new_actions b (snd (run_calls (adds True xs) b)) = tr"
    using run tr by (simp add: new_actions_append)
  have "0 < nat (max_size b)" using assms(2) by simp
  then have len: "map length (batches (nat (max_size b)) (events b @ pairs xs)) =
             replicate (length (events b @ pairs xs) div nat (max_size b)) (nat (max_size b))"
    by (rule batches_lengths)
  show ?thesis
    using step run na sk ev g len by simp
qed

theorem size_trigger_exactness_witness:
  "\<not> lock (JobBuffer_init 3 5 0 :: (nat, nat) JobBuffer)
   \<and> int (length (events (JobBuffer_init 3 5 0 :: (nat, nat) JobBuffer))) < max_size (JobBuffer_init 3 5 0 :: (nat, nat) JobBuffer)
   \<and> fst (run_calls (adds True [(5, 10, 1), (6, 20, 2), (7, 30, 3), (8, 40, 4)])
             (JobBuffer_init 3 5 0 :: (nat, nat) JobBuffer))
       = [Returned, Returned, Returned, Returned]
   \<and> sinks (new_actions (JobBuffer_init 3 5 0)
        (snd (run_calls (adds True [(5, 10, 1), (6, 20, 2), (7, 30, 3), (8, 40, 4)])
               (JobBuffer_init 3 5 0 :: (nat, nat) JobBuffer))))
       = [([(5, 10), (6, 20), (7, 30)], True)]
   \<and> events (snd (run_calls (adds True [(5, 10, 1), (6, 20, 2), (7, 30, 3), (8, 40, 4)])
               (JobBuffer_init 3 5 0 :: (nat, nat) JobBuffer)))
       = [(8, 40)]"
proof -
  let ?b = "JobBuffer_init 3 5 0 :: (nat, nat) JobBuffer"
  have h1: "\<not> lock ?b" by (simp add: JobBuffer_init_def)
  have h2: "int (length (events ?b)) < max_size ?b" by (simp add: JobBuffer_init_def)
  have ms: "nat (max_size ?b) = 3" and ev: "events ?b = []" by (simp_all add: JobBuffer_init_def)
  have b: "batches 3 [(5, 10), (6, 20), (7, 30), (8, 40)] = [(5::nat, 10::nat), (6, 20), (7, 30)] # []"
    by (simp add: batches.simps)
  have l: "leftover 3 [(5, 10), (6, 20), (7, 30), (8, 40)] = [(8::nat, 40::nat)]"
    by (simp add: leftover.simps)
  have p: "pairs [(5::nat, 10::nat, 1::int), (6, 20, 2), (7, 30, 3), (8, 40, 4)]
             = [(5, 10), (6, 20), (7, 30), (8, 40)]"
    by (simp add: pairs_def)
  from size_trigger_exactness [OF h1 h2, of _ _ _ "[(5, 10, 1), (6, 20, 2), (7, 30, 3), (8, 40, 4)]"]
  show ?thesis using h1 h2 by (simp add: ms ev p b l)
qed

text \<open>
  Claim C2 (a failing callback). When the callback raises, the exception leaves the
  operation that flushed: \<^verbatim>\<open>flush_jobs\<close> called directly, \<^verbatim>\<open>add_job\<close> at the
  threshold, the locked section of the monitor, and with it the monitor loop, whose
  remaining turns do not run. The events are those the callback was given (no
  clear), the callback was invoked once (no retry), and the lock is released.
\<close>

theorem sink_failure_propagates:
  "(events b \<noteq> [] \<longrightarrow>
      flush_jobs False b =
        (Raised SinkFailure, b\<lparr>trace := trace b @ [Sink (events b) False]\<rparr>))
   \<and> (\<not> lock b \<and> max_size b \<le> int (length (events b)) + 1 \<longrightarrow>
      add_job job status now False b =
        (Raised SinkFailure,
         b\<lparr>events := events b @ [(job, status)], last_event_time := now,
           trace := trace b @ [Acquire, Append (job, status), Stamp now,
                               Sink (events b @ [(job, status)]) False, Release]\<rparr>))
   \<and> (\<not> lock b \<and> timeout b \<le> now - last_event_time b \<and> events b \<noteq> [] \<longrightarrow>
      monitor_check now False b =
        (Raised SinkFailure,
         b\<lparr>trace := trace b @ [Acquire, Sink (events b) False, Release]\<rparr>))
   \<and> (alive b
        \<and> fst (monitor_check (wake_time c) (sink_ok c) (snd (run_calls (sleep_calls c) b)))
            = Raised e \<longrightarrow>
      monitor (c # cs) b =
        monitor_check (wake_time c) (sink_ok c) (snd (run_calls (sleep_calls c) b)))"
  using flush_jobs_fail [of b] add_job_flush_fail [of b job status now]
    monitor_check_fail [of b now] monitor_raise [of b c e cs]
  by blast

theorem sink_failure_propagates_witness:
  "events (snd (add_job 1 10 3 True (JobBuffer_init 2 5 0 :: (nat, nat) JobBuffer))) \<noteq> []
   \<and> fst (flush_jobs False (snd (add_job 1 10 3 True (JobBuffer_init 2 5 0 :: (nat, nat) JobBuffer))))
       = Raised SinkFailure
   \<and> events (snd (flush_jobs False (snd (add_job 1 10 3 True (JobBuffer_init 2 5 0 :: (nat, nat) JobBuffer)))))
       = [(1, 10)]"
proof -
  let ?b = "snd (add_job 1 10 3 True (JobBuffer_init 2 5 0 :: (nat, nat) JobBuffer))"
  have ev: "events ?b = [(1, 10)]"
    by (simp add: JobBuffer_init_def add_job_def with_lock_def record_action_def)
  then have h: "events ?b \<noteq> []" by simp
  from sink_failure_propagates [of ?b]
  have "flush_jobs False ?b =
          (Raised SinkFailure, ?b\<lparr>trace := trace ?b @ [Sink (events ?b) False]\<rparr>)"
    using h by blast
  with ev h show ?thesis by simp
qed

text \<open>
  Claim C3 reads: after a flush attempt that failed with pending events \<open>E\<close>, any
  later successful flush delivers a batch that starts with \<open>E\<close>. With
  \<^verbatim>\<open>max_size = 1\<close>: the flush of \<^verbatim>\<open>add_job(7, 8)\<close> fails with \<open>[(7, 8)]\<close>, the
  flush of \<^verbatim>\<open>add_job(9, 8)\<close> succeeds with \<open>[(7, 8), (9, 8)]\<close> and clears, and the
  flush of \<^verbatim>\<open>add_job(11, 8)\<close> succeeds with \<open>[(11, 8)]\<close>, which does not start with
  \<open>[(7, 8)]\<close>.
\<close>

theorem later_flush_counterexample:
  "sinks (new_actions (JobBuffer_init 1 5 0)
      (snd (run_calls [AddJob 7 8 1 False, AddJob 9 8 2 True, AddJob 11 8 3 True]
             (JobBuffer_init 1 5 0 :: (nat, nat) JobBuffer))))
     = [([(7, 8)], False), ([(7, 8), (9, 8)], True), ([(11, 8)], True)]
   \<and> \<not> prefix [(7::nat, 8::nat)] [(11, 8)]"
  by (simp add: JobBuffer_init_def new_actions_def add_job_def flush_jobs_def with_lock_def
        record_action_def)

text \<open>
  Claim C3 (at least once), amended to the next successful flush and to the flushes
  made under the lock: in the history of any sequence of \<^verbatim>\<open>add_job\<close> calls, checks
  of the monitor and stop signals, when the callback fails with batch \<open>E\<close> and \<open>E'\<close>
  is the batch of the next invocation that returns, \<open>E'\<close> is \<open>E\<close> followed by the
  pairs appended in between, in order. Nothing is said of a direct \<^verbatim>\<open>flush_jobs\<close>,
  which takes no lock.
\<close>

theorem next_successful_flush_resends:
  assumes "\<forall>c \<in> set cs. \<not> direct_flush c"
    and "new_actions b (snd (run_calls cs b)) = pre @ Sink E False # mid @ Sink E' True # post"
    and "no_success mid"
  shows "E' = E @ appended mid \<and> prefix E E'"
proof -
  obtain tr where tr: "trace (snd (run_calls cs b)) = trace b @ tr"
    and rp: "replay (events b) tr = Some (events (snd (run_calls cs b)))"
    using run_calls_trace [of cs b] by blast
  have "new_actions b (snd (run_calls cs b)) = tr"
    using tr by (rule new_actions_append)
  with assms(2) rp
  have "replay (events b) (pre @ Sink E False # mid @ Sink E' True # post)
          = Some (events (snd (run_calls cs b)))"
    by simp
  from resend [OF this assms(3)] show ?thesis by simp
qed

theorem next_successful_flush_resends_witness:
  "\<not> direct_flush (AddJob (7::nat) (8::nat) 1 False)
   \<and> \<not> direct_flush (AddJob (9::nat) (8::nat) 2 False)
   \<and> \<not> direct_flush (MonitorCheck 10 True :: (nat, nat) call)
   \<and> new_actions (JobBuffer_init 1 5 0)
      (snd (run_calls [AddJob 7 8 1 False, AddJob 9 8 2 False, MonitorCheck 10 True]
             (JobBuffer_init 1 5 0 :: (nat, nat) JobBuffer)))
     = [Acquire, Append (7, 8), Stamp 1] @ Sink [(7, 8)] False
         # [Release, Acquire, Append (9, 8), Stamp 2, Sink [(7, 8), (9, 8)] False, Release,
            Acquire]
         @ Sink [(7, 8), (9, 8)] True # [Clear, Release]
   \<and> no_success [Release, Acquire, Append (9::nat, 8::nat), Stamp 2,
                  Sink [(7, 8), (9, 8)] False, Release, Acquire]
   \<and> [(7::nat, 8::nat), (9, 8)]
       = [(7, 8)] @ appended [Release, Acquire, Append (9, 8), Stamp 2,
                              Sink [(7, 8), (9, 8)] False, Release, Acquire]"
proof -
  let ?b = "JobBuffer_init 1 5 0 :: (nat, nat) JobBuffer"
  let ?cs = "[AddJob 7 8 1 False, AddJob 9 8 2 False, MonitorCheck 10 True] :: (nat, nat) call list"
  let ?mid = "[Release, Acquire, Append (9::nat, 8::nat), Stamp 2,
               Sink [(7, 8), (9, 8)] False, Release, Acquire]"
  have h0: "\<forall>c \<in> set ?cs. \<not> direct_flush c" by simp
  have h1: "new_actions ?b (snd (run_calls ?cs ?b))
     = [Acquire, Append (7, 8), Stamp 1] @ Sink [(7, 8)] False # ?mid
         @ Sink [(7, 8), (9, 8)] True # [Clear, Release]"
    by (simp add: JobBuffer_init_def new_actions_def add_job_def monitor_check_def
          flush_jobs_def with_lock_def record_action_def)
  have h2: "no_success ?mid" by (simp add: no_success_def)
  from next_successful_flush_resends [OF h0 h1 h2] h0 h1 h2 show ?thesis by simp
qed

text \<open>
  Claim C4 (timeout trigger). Each turn of the monitor loop runs the locked check
  once, after the sleep. With the lock free, the check invokes the callback once,
  with all pending events, when the clock reading is at least \<^verbatim>\<open>timeout\<close> after
  \<^verbatim>\<open>last_event_time\<close> and events are pending; it invokes nothing when no event is
  pending, and nothing when less than \<^verbatim>\<open>timeout\<close> has passed.
\<close>

theorem timeout_trigger:
  assumes "\<not> lock b"
  shows "monitor_check now ok b =
     (if timeout b \<le> now - last_event_time b \<and> events b \<noteq> [] then
        (if ok then
           (Returned, b\<lparr>events := [],
                        trace := trace b @ [Acquire, Sink (events b) True, Clear, Release]\<rparr>)
         else
           (Raised SinkFailure,
            b\<lparr>trace := trace b @ [Acquire, Sink (events b) False, Release]\<rparr>))
      else (Returned, b\<lparr>trace := trace b @ [Acquire, Release]\<rparr>))
     \<and> (alive b \<longrightarrow>
          monitor (c # cs) b =
            (case monitor_check (wake_time c) (sink_ok c) (snd (run_calls (sleep_calls c) b)) of
               (Returned, b') \<Rightarrow> monitor cs b'
             | (r, b') \<Rightarrow> (r, b')))"
  using monitor_check_cases [OF assms, of now ok] by simp

theorem timeout_trigger_witness:
  "\<not> lock (snd (add_job 7 8 10 True (JobBuffer_init 3 5 0 :: (nat, nat) JobBuffer)))
   \<and> monitor_check 15 True (snd (add_job 7 8 10 True (JobBuffer_init 3 5 0 :: (nat, nat) JobBuffer)))
       = (Returned,
          \<lparr>max_size = 3, timeout = 5, alive = True, events = [], last_event_time = 10,
           lock = False,
           trace = [Acquire, Append (7, 8), Stamp 10, Release,
                    Acquire, Sink [(7, 8)] True, Clear, Release]\<rparr>)"
proof -
  let ?b = "snd (add_job 7 8 10 True (JobBuffer_init 3 5 0 :: (nat, nat) JobBuffer))"
  have b: "?b = \<lparr>max_size = 3, timeout = 5, alive = True, events = [(7, 8)],
                 last_event_time = 10, lock = False,
                 trace = [Acquire, Append (7, 8), Stamp 10, Release]\<rparr>"
    by (simp add: JobBuffer_init_def add_job_def with_lock_def record_action_def)
  then have h: "\<not> lock ?b" by simp
  from timeout_trigger [OF h, of 15 True] have "monitor_check 15 True ?b =
     (if timeout ?b \<le> 15 - last_event_time ?b \<and> events ?b \<noteq> [] then
        (if True then
           (Returned, ?b\<lparr>events := [],
                        trace := trace ?b @ [Acquire, Sink (events ?b) True, Clear, Release]\<rparr>)
         else
           (Raised SinkFailure,
            ?b\<lparr>trace := trace ?b @ [Acquire, Sink (events ?b) False, Release]\<rparr>))
      else (Returned, ?b\<lparr>trace := trace ?b @ [Acquire, Release]\<rparr>))"
    by blast
  with h show ?thesis
    unfolding b by simp
qed

text \<open>
  Claim C5 (flush of an empty buffer). \<^verbatim>\<open>flush_jobs\<close> on a buffer with no events
  returns and leaves the buffer as it is, history included: the callback is not
  invoked.
\<close>

theorem flush_jobs_on_empty:
  "events b = [] \<Longrightarrow> flush_jobs ok b = (Returned, b)"
  by (simp add: flush_jobs_def)

theorem flush_jobs_on_empty_witness:
  "events (JobBuffer_init 3 5 0 :: (nat, nat) JobBuffer) = []
   \<and> flush_jobs True (JobBuffer_init 3 5 0 :: (nat, nat) JobBuffer) =
       (Returned, JobBuffer_init 3 5 0)"
proof -
  have h: "events (JobBuffer_init 3 5 0 :: (nat, nat) JobBuffer) = []"
    by (simp add: JobBuffer_init_def)
  from h flush_jobs_on_empty [OF h, of True] show ?thesis by simp
qed

text \<open>
  Claim C6 reads: after the stop signal the monitor invokes the callback at most
  once more, and at most one \<^verbatim>\<open>timeout\<close> after the signal. With
  \<^verbatim>\<open>max_size = 2\<close> and \<^verbatim>\<open>timeout = 5\<close>: while the monitor sleeps and waits for the
  lock, \<^verbatim>\<open>add_job(7, 8)\<close> reads the clock at 2, \<^verbatim>\<open>alive\<close> is cleared, and
  \<^verbatim>\<open>add_job(9, 8)\<close> reads the clock at 3 and holds the lock until its callback has
  failed. The monitor gets the lock when the clock reads 100 and invokes the callback
  then: after the signal the clock read 3, and 100 is more than 5 later.
\<close>

theorem late_monitor_flush_counterexample:
  "monitor [Cycle [AddJob 7 8 2 True, ClearAlive, AddJob 9 8 3 False] 100 True]
     (JobBuffer_init 2 5 0 :: (nat, nat) JobBuffer)
     = (Returned,
        \<lparr>max_size = 2, timeout = 5, alive = False, events = [], last_event_time = 3,
         lock = False,
         trace = [Acquire, Append (7, 8), Stamp 2, Release,
                  Acquire, Append (9, 8), Stamp 3, Sink [(7, 8), (9, 8)] False, Release,
                  Acquire, Sink [(7, 8), (9, 8)] True, Clear, Release]\<rparr>)
   \<and> wake_time (Cycle [AddJob 7 8 2 True, ClearAlive, AddJob 9 8 3 False] 100 True
                  :: (nat, nat) cycle) = 100
   \<and> (3::int) + timeout (JobBuffer_init 2 5 0 :: (nat, nat) JobBuffer) < 100"
  by (simp add: JobBuffer_init_def add_job_def monitor_check_def flush_jobs_def with_lock_def
        record_action_def)

text \<open>
  Claim C6 (the monitor stops), amended to turns of the loop, with no bound in time.
  With \<^verbatim>\<open>alive\<close> cleared before the loop test, the monitor returns at once and
  changes nothing. With \<^verbatim>\<open>alive\<close> cleared during the sleep of a turn, the monitor
  does the check of that turn and ends: its outcome is that of the check, never
  \<open>Pending\<close>, the check invokes the callback at most once, and the turns that follow
  in the script do not run. Hence a monitor whose script contains the stop signal
  ends.
\<close>

theorem monitor_shutdown:
  "(\<not> alive b \<longrightarrow> monitor cs b = (Returned, b))
   \<and> (alive b \<and> \<not> lock b \<and> \<not> alive (snd (run_calls (sleep_calls c) b)) \<longrightarrow>
        monitor (c # cs) b =
          monitor_check (wake_time c) (sink_ok c) (snd (run_calls (sleep_calls c) b))
        \<and> fst (monitor (c # cs) b) \<noteq> Pending
        \<and> length (sinks (new_actions (snd (run_calls (sleep_calls c) b))
                                      (snd (monitor (c # cs) b)))) \<le> 1
        \<and> \<not> alive (snd (monitor (c # cs) b)))
   \<and> (\<not> lock b \<and> (\<exists>c \<in> set cs. ClearAlive \<in> set (sleep_calls c)) \<longrightarrow>
        fst (monitor cs b) \<noteq> Pending)"
proof -
  have 1: "\<not> alive b \<longrightarrow> monitor cs b = (Returned, b)"
    using monitor_stopped by blast
  have 2: "alive b \<and> \<not> lock b \<and> \<not> alive (snd (run_calls (sleep_calls c) b)) \<longrightarrow>
        monitor (c # cs) b =
          monitor_check (wake_time c) (sink_ok c) (snd (run_calls (sleep_calls c) b))
        \<and> fst (monitor (c # cs) b) \<noteq> Pending
        \<and> length (sinks (new_actions (snd (run_calls (sleep_calls c) b))
                                      (snd (monitor (c # cs) b)))) \<le> 1
        \<and> \<not> alive (snd (monitor (c # cs) b))"
  proof
    let ?b1 = "snd (run_calls (sleep_calls c) b)"
    assume a: "alive b \<and> \<not> lock b \<and> \<not> alive ?b1"
    then have l1: "\<not> lock ?b1" by (simp add: run_calls_lock)
    have eq: "monitor (c # cs) b = monitor_check (wake_time c) (sink_ok c) ?b1"
      using a monitor_last_turn by blast
    moreover have "fst (monitor_check (wake_time c) (sink_ok c) ?b1) \<noteq> Pending"
      using l1 by (rule monitor_check_not_pending)
    moreover have "length (sinks (new_actions ?b1
                     (snd (monitor_check (wake_time c) (sink_ok c) ?b1)))) \<le> 1"
      using l1 by (rule monitor_check_sinks)
    moreover have "\<not> alive (snd (monitor_check (wake_time c) (sink_ok c) ?b1))"
      using a by (simp add: monitor_check_alive)
    ultimately show "monitor (c # cs) b = monitor_check (wake_time c) (sink_ok c) ?b1
        \<and> fst (monitor (c # cs) b) \<noteq> Pending
        \<and> length (sinks (new_actions ?b1 (snd (monitor (c # cs) b)))) \<le> 1
        \<and> \<not> alive (snd (monitor (c # cs) b))"
      by simp
  qed
  have 3: "\<not> lock b \<and> (\<exists>c \<in> set cs. ClearAlive \<in> set (sleep_calls c)) \<longrightarrow>
        fst (monitor cs b) \<noteq> Pending"
    using monitor_returns by blast
  from 1 2 3 show ?thesis by blast
qed

theorem monitor_shutdown_witness:
  "alive (JobBuffer_init 3 5 0 :: (nat, nat) JobBuffer)
   \<and> \<not> lock (JobBuffer_init 3 5 0 :: (nat, nat) JobBuffer)
   \<and> \<not> alive (snd (run_calls [AddJob 7 8 2 True, ClearAlive]
                     (JobBuffer_init 3 5 0 :: (nat, nat) JobBuffer)))
   \<and> monitor [Cycle [AddJob 7 8 2 True, ClearAlive] 9 True, Cycle [] 14 True, Cycle [] 19 True]
        (JobBuffer_init 3 5 0 :: (nat, nat) JobBuffer)
       = (Returned,
          \<lparr>max_size = 3, timeout = 5, alive = False, events = [], last_event_time = 2,
           lock = False,
           trace = [Acquire, Append (7, 8), Stamp 2, Release,
                    Acquire, Sink [(7, 8)] True, Clear, Release]\<rparr>)"
proof -
  let ?b = "JobBuffer_init 3 5 0 :: (nat, nat) JobBuffer"
  let ?c = "Cycle [AddJob 7 8 2 True, ClearAlive] 9 True :: (nat, nat) cycle"
  have b1: "snd (run_calls (sleep_calls ?c) ?b)
      = \<lparr>max_size = 3, timeout = 5, alive = False, events = [(7, 8)], last_event_time = 2,
         lock = False, trace = [Acquire, Append (7, 8), Stamp 2, Release]\<rparr>"
    by (simp add: JobBuffer_init_def add_job_def with_lock_def record_action_def)
  have h1: "alive ?b" and h2: "\<not> lock ?b" by (simp_all add: JobBuffer_init_def)
  have h3: "\<not> alive (snd (run_calls (sleep_calls ?c) ?b))" unfolding b1 by simp
  from monitor_shutdown [of ?b "[Cycle [] 14 True, Cycle [] 19 True]" ?c] h1 h2 h3
  have "monitor [?c, Cycle [] 14 True, Cycle [] 19 True] ?b
          = monitor_check (wake_time ?c) (sink_ok ?c) (snd (run_calls (sleep_calls ?c) ?b))"
    by blast
  also have "\<dots> = (Returned,
          \<lparr>max_size = 3, timeout = 5, alive = False, events = [], last_event_time = 2,
           lock = False,
           trace = [Acquire, Append (7, 8), Stamp 2, Release,
                    Acquire, Sink [(7, 8)] True, Clear, Release]\<rparr>)"
    unfolding b1
    by (simp add: monitor_check_def flush_jobs_def with_lock_def record_action_def)
  finally show ?thesis using h1 h2 h3 by simp
qed

text \<open>
  Claim C7 (lock discipline): every operation acquires the lock before it touches
  \<^verbatim>\<open>events\<close> and \<^verbatim>\<open>last_event_time\<close>, and the callback runs with the lock held.
  \<^verbatim>\<open>add_job\<close> and the check of the monitor do so (\<open>locked_paths_guarded\<close>);
  \<^verbatim>\<open>flush_jobs\<close> does not. A direct \<^verbatim>\<open>flush_jobs\<close> on a buffer with one pending
  event and a free lock invokes the callback and clears the events with no
  \<open>Acquire\<close> before them, so the code breaks the claim there.
\<close>

theorem flush_jobs_unlocked:
  "\<not> lock (snd (add_job 7 8 2 True (JobBuffer_init 3 5 0 :: (nat, nat) JobBuffer)))
   \<and> new_actions (snd (add_job 7 8 2 True (JobBuffer_init 3 5 0 :: (nat, nat) JobBuffer)))
        (snd (flush_jobs True (snd (add_job 7 8 2 True (JobBuffer_init 3 5 0)))))
       = [Sink [(7, 8)] True, Clear]
   \<and> \<not> guarded False
         (new_actions (snd (add_job 7 8 2 True (JobBuffer_init 3 5 0 :: (nat, nat) JobBuffer)))
            (snd (flush_jobs True (snd (add_job 7 8 2 True (JobBuffer_init 3 5 0))))))"
  by (simp add: JobBuffer_init_def new_actions_def add_job_def flush_jobs_def with_lock_def
        record_action_def)

text \<open>
  Claim C8 (growth while the callback fails). From a buffer with a free lock, after
  any sequence of calls in which the callback never returns, the events are the old
  events followed by every pair of every \<^verbatim>\<open>add_job\<close> call, in order: nothing is
  dropped, and the length grows by the number of \<^verbatim>\<open>add_job\<close> calls, whatever
  \<^verbatim>\<open>max_size\<close> is.
\<close>

theorem growth_under_failure:
  assumes "\<not> lock b" and "\<forall>c \<in> set cs. \<not> sink_outcome c"
  shows "events (snd (run_calls cs b)) = events b @ added cs
         \<and> length (events (snd (run_calls cs b))) = length (events b) + length (added cs)
         \<and> no_success (new_actions b (snd (run_calls cs b)))"
proof -
  obtain tr where tr: "trace (snd (run_calls cs b)) = trace b @ tr"
    and rp: "replay (events b) tr = Some (events (snd (run_calls cs b)))"
    and ap: "appended tr = added cs" and ns: "no_success tr"
    using run_calls_trace [of cs b] assms by blast
  have na: "new_actions b (snd (run_calls cs b)) = tr"
    using tr by (rule new_actions_append)
  have ev: "events (snd (run_calls cs b)) = events b @ added cs"
    using replay_no_success [OF rp ns] ap by simp
  with na ns show ?thesis by simp
qed

theorem growth_under_failure_witness:
  "\<not> lock (JobBuffer_init 2 5 0 :: (nat, nat) JobBuffer)
   \<and> \<not> sink_outcome (AddJob (5::nat) (10::nat) 1 False)
   \<and> \<not> sink_outcome (AddJob (6::nat) (20::nat) 2 False)
   \<and> \<not> sink_outcome (AddJob (7::nat) (30::nat) 3 False)
   \<and> events (snd (run_calls [AddJob 5 10 1 False, AddJob 6 20 2 False, AddJob 7 30 3 False]
                (JobBuffer_init 2 5 0 :: (nat, nat) JobBuffer)))
       = [(5, 10), (6, 20), (7, 30)]"
proof -
  let ?b = "JobBuffer_init 2 5 0 :: (nat, nat) JobBuffer"
  let ?cs = "[AddJob 5 10 1 False, AddJob 6 20 2 False, AddJob (7::nat) (30::nat) 3 False]"
  have h1: "\<not> lock ?b" by (simp add: JobBuffer_init_def)
  have h2: "\<forall>c \<in> set ?cs. \<not> sink_outcome c" by simp
  have ev: "events ?b = []" by (simp add: JobBuffer_init_def)
  from growth_under_failure [OF h1 h2]
  have "events (snd (run_calls ?cs ?b)) = events ?b @ added ?cs" by blast
  with h1 h2 ev show ?thesis by simp
qed

text \<open>
  Claim C9 (frame of \<^verbatim>\<open>last_event_time\<close>). An \<^verbatim>\<open>add_job\<close> that gets the lock sets
  \<^verbatim>\<open>last_event_time\<close> to its clock reading, whether or not it flushes and whatever
  the callback does; \<^verbatim>\<open>flush_jobs\<close> and the check of the monitor leave it as it is;
  a new buffer has the clock reading of its construction.
\<close>

theorem last_event_time_frame:
  "(\<not> lock b \<longrightarrow> last_event_time (snd (add_job job status now ok b)) = now)
   \<and> last_event_time (snd (flush_jobs ok b)) = last_event_time b
   \<and> last_event_time (snd (monitor_check now ok b)) = last_event_time b
   \<and> last_event_time (JobBuffer_init ms tmo now :: ('j, 's) JobBuffer) = now"
proof -
  have "\<not> lock b \<longrightarrow> last_event_time (snd (add_job job status now ok b)) = now"
    by (cases ok)
       (simp_all add: add_job_def with_lock_def record_action_def flush_jobs_def Let_def)
  moreover have "last_event_time (snd (flush_jobs ok b)) = last_event_time b"
    by (cases ok) (simp_all add: record_action_def flush_jobs_def Let_def)
  moreover have "last_event_time (snd (monitor_check now ok b)) = last_event_time b"
    by (cases ok)
       (simp_all add: monitor_check_def with_lock_def record_action_def flush_jobs_def Let_def)
  moreover have "last_event_time (JobBuffer_init ms tmo now :: ('j, 's) JobBuffer) = now"
    by (simp add: JobBuffer_init_def)
  ultimately show ?thesis by blast
qed

theorem last_event_time_frame_witness:
  "\<not> lock (JobBuffer_init 1 5 0 :: (nat, nat) JobBuffer)
   \<and> last_event_time (snd (add_job 7 8 42 True (JobBuffer_init 1 5 0 :: (nat, nat) JobBuffer))) = 42"
proof -
  have h: "\<not> lock (JobBuffer_init 1 5 0 :: (nat, nat) JobBuffer)"
    by (simp add: JobBuffer_init_def)
  from h last_event_time_frame [of "JobBuffer_init 1 5 0 :: (nat, nat) JobBuffer" 7 8 42 True]
  show ?thesis by blast
qed

text \<open>
  Claim C10 reads: with \<^verbatim>\<open>max_size \<le> 1\<close>, every \<^verbatim>\<open>add_job\<close> whose callback returns
  gives the callback at most the pair just appended. With \<^verbatim>\<open>max_size = 1\<close>, after
  an \<^verbatim>\<open>add_job(7, 8)\<close> whose callback failed, the callback of \<^verbatim>\<open>add_job(9, 8)\<close>
  returns and was given two pairs.
\<close>

theorem stale_events_counterexample:
  "max_size (JobBuffer_init 1 5 0 :: (nat, nat) JobBuffer) \<le> 1
   \<and> fst (add_job 9 8 3 True (snd (add_job 7 8 2 False (JobBuffer_init 1 5 0 :: (nat, nat) JobBuffer))))
       = Returned
   \<and> sinks (new_actions (snd (add_job 7 8 2 False (JobBuffer_init 1 5 0 :: (nat, nat) JobBuffer)))
        (snd (add_job 9 8 3 True (snd (add_job 7 8 2 False (JobBuffer_init 1 5 0))))))
       = [([(7, 8), (9, 8)], True)]"
  by (simp add: JobBuffer_init_def new_actions_def add_job_def flush_jobs_def with_lock_def
        record_action_def)

text \<open>
  Claim C10 (no check of \<^verbatim>\<open>max_size\<close>), amended: the constructor keeps any integer
  \<^verbatim>\<open>max_size\<close>. With \<^verbatim>\<open>max_size \<le> 1\<close>, every \<^verbatim>\<open>add_job\<close> whose callback returns
  flushes at once: the callback is given all pending events, the pair just appended
  last, and the events are empty afterwards. From a new buffer, when every callback
  returns, each batch is the single pair just appended.
\<close>

theorem flush_on_every_add:
  "max_size (JobBuffer_init ms tmo t0 :: ('j, 's) JobBuffer) = ms
   \<and> (\<not> lock b \<and> max_size b \<le> 1 \<longrightarrow>
        add_job job status now True b =
          (Returned,
           b\<lparr>events := [], last_event_time := now,
             trace := trace b @ [Acquire, Append (job, status), Stamp now,
                                 Sink (events b @ [(job, status)]) True, Clear, Release]\<rparr>))
   \<and> (ms \<le> 1 \<longrightarrow>
        fst (run_calls (adds True xs) (JobBuffer_init ms tmo t0 :: ('j, 's) JobBuffer))
          = replicate (length xs) Returned
        \<and> sinks (new_actions (JobBuffer_init ms tmo t0)
             (snd (run_calls (adds True xs) (JobBuffer_init ms tmo t0 :: ('j, 's) JobBuffer))))
          = map (\<lambda>p. ([p], True)) (pairs xs)
        \<and> events (snd (run_calls (adds True xs) (JobBuffer_init ms tmo t0 :: ('j, 's) JobBuffer)))
          = [])"
proof -
  let ?b0 = "JobBuffer_init ms tmo t0 :: ('j, 's) JobBuffer"
  have 1: "max_size ?b0 = ms" by (simp add: JobBuffer_init_def)
  have 2: "\<not> lock b \<and> max_size b \<le> 1 \<longrightarrow>
        add_job job status now True b =
          (Returned,
           b\<lparr>events := [], last_event_time := now,
             trace := trace b @ [Acquire, Append (job, status), Stamp now,
                                 Sink (events b @ [(job, status)]) True, Clear, Release]\<rparr>)"
    using add_job_flush_ok [of b job status now] by simp
  have 3: "ms \<le> 1 \<longrightarrow>
        fst (run_calls (adds True xs) ?b0) = replicate (length xs) Returned
        \<and> sinks (new_actions ?b0 (snd (run_calls (adds True xs) ?b0)))
          = map (\<lambda>p. ([p], True)) (pairs xs)
        \<and> events (snd (run_calls (adds True xs) ?b0)) = []"
  proof
    assume ms: "ms \<le> 1"
    have "\<not> lock ?b0" "max_size ?b0 \<le> 1" "events ?b0 = []"
      using ms by (simp_all add: JobBuffer_init_def)
    from adds_small_run [OF this, of xs] obtain b' tr where
      run: "run_calls (adds True xs) ?b0 = (replicate (length xs) Returned, b')"
      and tr: "trace b' = trace ?b0 @ tr"
      and sk: "sinks tr = map (\<lambda>p. ([p], True)) (pairs xs)"
      and ev: "events b' = []"
      by blast
    have "new_actions ?b0 (snd (run_calls (adds True xs) ?b0)) = tr"
      using run tr by (simp add: new_actions_append)
    with run sk ev
    show "fst (run_calls (adds True xs) ?b0) = replicate (length xs) Returned
        \<and> sinks (new_actions ?b0 (snd (run_calls (adds True xs) ?b0)))
          = map (\<lambda>p. ([p], True)) (pairs xs)
        \<and> events (snd (run_calls (adds True xs) ?b0)) = []"
      by simp
  qed
  from 1 2 3 show ?thesis by blast
qed

theorem flush_on_every_add_witness:
  "(0::int) \<le> 1
   \<and> sinks (new_actions (JobBuffer_init 0 5 0)
        (snd (run_calls (adds True [(7, 8, 2), (9, 8, 3)])
               (JobBuffer_init 0 5 0 :: (nat, nat) JobBuffer))))
       = [([(7, 8)], True), ([(9, 8)], True)]
   \<and> events (snd (run_calls (adds True [(7, 8, 2), (9, 8, 3)])
               (JobBuffer_init 0 5 0 :: (nat, nat) JobBuffer)))
       = []"
proof -
  have h: "(0::int) \<le> 1" by simp
  from flush_on_every_add [where ms = 0 and tmo = 5 and ?t0.0 = 0
      and xs = "[(7::nat, 8::nat, 2), (9, 8, 3)]" and b = "JobBuffer_init 0 5 0"
      and job = 7 and status = 8 and now = 2] h
  have "sinks (new_actions (JobBuffer_init 0 5 0)
        (snd (run_calls (adds True [(7, 8, 2), (9, 8, 3)])
               (JobBuffer_init 0 5 0 :: (nat, nat) JobBuffer))))
       = map (\<lambda>p. ([p], True)) (pairs [(7, 8, 2), (9, 8, 3)])
     \<and> events (snd (run_calls (adds True [(7, 8, 2), (9, 8, 3)])
               (JobBuffer_init 0 5 0 :: (nat, nat) JobBuffer)))
       = []"
    by blast
  then show ?thesis by (simp add: pairs_def)
qed

end
